theory Spec2Isabelle
  imports Complex_Main
begin

section \<open>The frame loop of gt3 (frameloop.go)\<close>

text \<open>
  The development embeds the scheduler of \<^verbatim>\<open>frameloop.go\<close>: the constructor
  \<^verbatim>\<open>NewSim\<close>, the rate setters \<^verbatim>\<open>SetFPS\<close> and \<^verbatim>\<open>SetRenderFPS\<close>, the clock
  (\<^verbatim>\<open>Now\<close>, \<^verbatim>\<open>realtime\<close>), the op queue (\<^verbatim>\<open>pollSched\<close>, \<^verbatim>\<open>Sched\<close>, \<^verbatim>\<open>Sync\<close>) and the
  loop (\<^verbatim>\<open>frame\<close>, \<^verbatim>\<open>runSim\<close>, \<^verbatim>\<open>Run\<close>).
\<close>

subsection \<open>Values of type float64\<close>

text \<open>
  A \<^verbatim>\<open>float64\<close> is a finite number, one of the two infinities, or NaN. Finite
  values are kept as exact reals: the arithmetic below is that of IEEE 754 on the
  special values (so \<^verbatim>\<open>1.0 / 0\<close> is the positive infinity and every comparison with NaN
  is false), but the rounding of a finite result to 53 bits is not modelled, and
  neither is the sign of a zero (the code only ever divides by a converted \<^verbatim>\<open>int\<close>, whose
  zero is positive).
\<close>

datatype float64 = Finite real | PosInf | NegInf | NaN

fun f64_add :: "float64 \<Rightarrow> float64 \<Rightarrow> float64" where
  "f64_add NaN _ = NaN"
| "f64_add _ NaN = NaN"
| "f64_add PosInf NegInf = NaN"
| "f64_add NegInf PosInf = NaN"
| "f64_add PosInf _ = PosInf"
| "f64_add _ PosInf = PosInf"
| "f64_add NegInf _ = NegInf"
| "f64_add _ NegInf = NegInf"
| "f64_add (Finite a) (Finite b) = Finite (a + b)"

fun f64_neg :: "float64 \<Rightarrow> float64" where
  "f64_neg (Finite a) = Finite (- a)"
| "f64_neg PosInf = NegInf"
| "f64_neg NegInf = PosInf"
| "f64_neg NaN = NaN"

definition f64_sub :: "float64 \<Rightarrow> float64 \<Rightarrow> float64" where
  "f64_sub a b = f64_add a (f64_neg b)"

fun f64_div :: "float64 \<Rightarrow> float64 \<Rightarrow> float64" where
  "f64_div NaN _ = NaN"
| "f64_div _ NaN = NaN"
| "f64_div (Finite a) (Finite b) =
     (if b = 0 then (if a = 0 then NaN else if 0 < a then PosInf else NegInf)
      else Finite (a / b))"
| "f64_div (Finite a) _ = Finite 0"
| "f64_div PosInf (Finite b) = (if 0 \<le> b then PosInf else NegInf)"
| "f64_div NegInf (Finite b) = (if 0 \<le> b then NegInf else PosInf)"
| "f64_div _ _ = NaN"

fun f64_lt :: "float64 \<Rightarrow> float64 \<Rightarrow> bool" where
  "f64_lt (Finite a) (Finite b) = (a < b)"
| "f64_lt (Finite a) PosInf = True"
| "f64_lt NegInf (Finite b) = True"
| "f64_lt NegInf PosInf = True"
| "f64_lt _ _ = False"

fun f64_le :: "float64 \<Rightarrow> float64 \<Rightarrow> bool" where
  "f64_le NaN _ = False"
| "f64_le _ NaN = False"
| "f64_le (Finite a) (Finite b) = (a \<le> b)"
| "f64_le NegInf _ = True"
| "f64_le _ PosInf = True"
| "f64_le _ _ = False"

text \<open>\<^verbatim>\<open>a >= b\<close> in Go.\<close>

definition f64_ge :: "float64 \<Rightarrow> float64 \<Rightarrow> bool" where
  "f64_ge a b = f64_le b a"

text \<open>
  The conversion \<^verbatim>\<open>float64(n)\<close> of an \<^verbatim>\<open>int\<close>. Go's \<^verbatim>\<open>int\<close> has 64 bits; the code
  compares its rates with zero and converts them, and never computes with them, so
  they are unbounded integers here.
\<close>

definition float64_of_int :: "int \<Rightarrow> float64" where
  "float64_of_int n = Finite (of_int n)"

subsection \<open>The Sim structure\<close>

text \<open>
  An op is named by a number; what its \<^verbatim>\<open>Do\<close> method does is given by the environment
  (below). A channel is named by a number too; \<open>None\<close> is the nil channel.
\<close>

type_synonym op = nat
type_synonym chan = nat

record Sim =
  PreFrame :: "op option"
  Frame :: "op option"
  Render :: "op option"
  fps :: int
  hz :: float64
  rfps :: int
  rhz :: float64
  runTime :: int
  baseTime :: float64
  simTime :: float64
  renderTime :: float64
  sched :: "chan option"
  stopped :: "chan option"

datatype error = ErrBadFPS | ErrStopped

text \<open>
  \<^verbatim>\<open>NewSim\<close> panics on a rate that is not positive (\<open>Inl\<close> carries the panic's
  message); the fields it does not name have Go's zero values.
\<close>

definition NewSim :: "int \<Rightarrow> int \<Rightarrow> chan option \<Rightarrow> string + Sim" where
  "NewSim fps0 renderfps stop =
     (if fps0 \<le> 0 then Inl ''gt3: simloop FPS must be > 0''
      else
        let rhz0 = (if 0 < renderfps then f64_div (Finite 1) (float64_of_int renderfps)
                    else Finite 0)
        in Inr \<lparr> PreFrame = None, Frame = None, Render = None,
                 fps = fps0, hz = f64_div (Finite 1) (float64_of_int fps0),
                 rfps = renderfps, rhz = rhz0,
                 runTime = 0, baseTime = Finite 0, simTime = Finite 0,
                 renderTime = Finite 0, sched = None, stopped = stop \<rparr>)"

text \<open>\<^verbatim>\<open>SetRenderFPS\<close> returns the previous render rate and the updated structure.\<close>

definition SetRenderFPS :: "int \<Rightarrow> Sim \<Rightarrow> int \<times> Sim" where
  "SetRenderFPS fps0 s =
     (rfps s, s\<lparr> rfps := fps0, rhz := f64_div (Finite 1) (float64_of_int fps0) \<rparr>)"

text \<open>
  \<^verbatim>\<open>SetFPS\<close> returns \<^verbatim>\<open>(previous, err)\<close> and the updated structure; a nil error is
  \<open>None\<close>.
\<close>

definition SetFPS :: "int \<Rightarrow> Sim \<Rightarrow> (int \<times> error option) \<times> Sim" where
  "SetFPS fps0 s =
     (if fps0 < 0 then ((0, Some ErrBadFPS), s)
      else ((fps s, None),
            s\<lparr> fps := fps0, hz := f64_div (Finite 1) (float64_of_int fps0) \<rparr>))"

subsection \<open>Calendar times\<close>

text \<open>
  \<^verbatim>\<open>realtime\<close> builds \<^verbatim>\<open>time.Unix(secs, nanos)\<close>. The conversion \<^verbatim>\<open>int64(real)\<close>
  truncates towards zero; Go leaves it to the implementation when \<^verbatim>\<open>real\<close> is NaN,
  infinite or out of the range of \<^verbatim>\<open>int64\<close>, and the time is then \<open>Unspecified\<close>. The
  sum \<^verbatim>\<open>unixBase + int64(real)\<close> wraps around as \<^verbatim>\<open>int64\<close> sums do.
\<close>

datatype gotime = Unix int int | Unspecified

definition wrap64 :: "int \<Rightarrow> int" where
  "wrap64 x = (x + 2 ^ 63) mod 2 ^ 64 - 2 ^ 63"

definition int64_of_real :: "real \<Rightarrow> int option" where
  "int64_of_real r =
     (let t = (if 0 \<le> r then \<lfloor>r\<rfloor> else \<lceil>r\<rceil>)
      in if - (2 ^ 63) \<le> t \<and> t < 2 ^ 63 then Some t else None)"

definition realtime :: "int \<Rightarrow> float64 \<Rightarrow> float64 \<Rightarrow> gotime" where
  "realtime unixBase base after =
     (case f64_add base after of
        Finite r \<Rightarrow>
          (case int64_of_real r of
             None \<Rightarrow> Unspecified
           | Some t \<Rightarrow> Unix (wrap64 (unixBase + t)) \<lfloor>1000000000 * (r - of_int \<lfloor>r\<rfloor>)\<rfloor>)
      | _ \<Rightarrow> Unspecified)"

subsection \<open>The world around the loop\<close>

text \<open>
  A hook or an op is Go code of the application. What a call of \<^verbatim>\<open>Do\<close> does to the
  scheduler is a list of calls of the scheduler's interface: the calls the op makes and
  the calls other goroutines make while it runs. (\<^verbatim>\<open>Sync\<close> is a call of another
  goroutine: on the loop's own goroutine it deadlocks, as its comment says. The three
  hooks are taken as assigned before \<^verbatim>\<open>Run\<close>, as the example program does.)
\<close>

datatype action =
    CallSetFPS int
  | CallSetRenderFPS int
  | CallClose chan
  | CallSched op
  | CallSync op

text \<open>
  The environment: the successive readings of \<^verbatim>\<open>glfw.GetTime()\<close>, the reading of
  \<^verbatim>\<open>time.Now().Unix()\<close> that \<^verbatim>\<open>Run\<close> makes, and the behaviour of every op, which may
  depend on the number of calls made before it and on the arguments of \<^verbatim>\<open>Do\<close>.
\<close>

record env =
  clock :: "nat \<Rightarrow> float64"
  unix :: int
  behaviour :: "nat \<Rightarrow> op \<Rightarrow> float64 \<Rightarrow> float64 \<Rightarrow> gotime \<Rightarrow> action list"

text \<open>
  A goroutine parked in the \<^verbatim>\<open>select\<close> of \<^verbatim>\<open>Sched\<close> or \<^verbatim>\<open>Sync\<close>: the op it hands over,
  the values \<^verbatim>\<open>s.sched\<close> and \<^verbatim>\<open>s.stopped\<close> had when the \<^verbatim>\<open>select\<close> evaluated them, and
  whether the caller waits for the op to finish (\<^verbatim>\<open>Sync\<close>). The ticket tells
  submissions of the same op apart.
\<close>

record sender =
  ticket :: nat
  sop :: op
  via :: "chan option"
  quit :: "chan option"
  waits :: bool

text \<open>A call of \<^verbatim>\<open>Do\<close>: where it was made from, the op and its three arguments.\<close>

datatype site = AtPreFrame | AtFrame | AtRender | FromQueue nat

datatype event = Did site op float64 float64 gotime

text \<open>
  The state: the \<^verbatim>\<open>Sim\<close>, the number of clock readings made, the closed channels,
  the number of channels made, the parked senders in the order they parked, the
  number of tickets given, and the calls of \<^verbatim>\<open>Do\<close> made so far, oldest first.
\<close>

record world =
  self :: Sim
  reads :: nat
  closed :: "chan set"
  chans :: nat
  parked :: "sender list"
  tickets :: nat
  trace :: "event list"

text \<open>A receive from a channel of type \<^verbatim>\<open>chan struct{}\<close> is ready when it is closed.\<close>

definition is_closed :: "chan option \<Rightarrow> world \<Rightarrow> bool" where
  "is_closed c w = (case c of None \<Rightarrow> False | Some k \<Rightarrow> k \<in> closed w)"

text \<open>
  \<^verbatim>\<open>Sched\<close> and \<^verbatim>\<open>Sync\<close>. The send on \<^verbatim>\<open>s.sched\<close> is never ready when the \<^verbatim>\<open>select\<close>
  begins (the loop only polls), so the goroutine leaves at once when the stop channel is
  closed and parks otherwise; the goroutine of \<^verbatim>\<open>Sched\<close> is taken to reach its
  \<^verbatim>\<open>select\<close> as soon as it is started.
\<close>

definition submit :: "bool \<Rightarrow> op \<Rightarrow> world \<Rightarrow> world" where
  "submit sync op0 w =
     (if is_closed (stopped (self w)) w then w
      else w\<lparr> parked := parked w @
                 [\<lparr> ticket = tickets w, sop = op0, via = sched (self w),
                    quit = stopped (self w), waits = sync \<rparr>],
               tickets := tickets w + 1 \<rparr>)"

definition Sched :: "op \<Rightarrow> world \<Rightarrow> world" where
  "Sched op0 w = submit False op0 w"

definition Sync :: "op \<Rightarrow> world \<Rightarrow> world" where
  "Sync op0 w = submit True op0 w"

text \<open>
  Closing a channel releases the senders whose \<^verbatim>\<open>select\<close> listens to it. Closing a
  closed channel is a panic of the application that does it, not of the scheduler;
  here it changes nothing.
\<close>

definition close_chan :: "chan \<Rightarrow> world \<Rightarrow> world" where
  "close_chan c w =
     (if c \<in> closed w then w
      else w\<lparr> closed := insert c (closed w),
              parked := filter (\<lambda>p. quit p \<noteq> Some c) (parked w) \<rparr>)"

fun act :: "world \<Rightarrow> action \<Rightarrow> world" where
  "act w (CallSetFPS v) = w\<lparr> self := snd (SetFPS v (self w)) \<rparr>"
| "act w (CallSetRenderFPS v) = w\<lparr> self := snd (SetRenderFPS v (self w)) \<rparr>"
| "act w (CallClose c) = close_chan c w"
| "act w (CallSched op0) = Sched op0 w"
| "act w (CallSync op0) = Sync op0 w"

text \<open>\<^verbatim>\<open>op.Do(hz, ft, rt)\<close>: the call is recorded, then its actions happen in order.\<close>

definition Do :: "env \<Rightarrow> site \<Rightarrow> op \<Rightarrow> float64 \<Rightarrow> float64 \<Rightarrow> gotime \<Rightarrow> world \<Rightarrow> world" where
  "Do e st op0 step ft rt w =
     foldl act (w\<lparr> trace := trace w @ [Did st op0 step ft rt] \<rparr>)
       (behaviour e (length (trace w)) op0 step ft rt)"

definition runOp ::
  "env \<Rightarrow> site \<Rightarrow> op option \<Rightarrow> float64 \<Rightarrow> float64 \<Rightarrow> gotime \<Rightarrow> world \<Rightarrow> world" where
  "runOp e st opt step ft rt w =
     (case opt of None \<Rightarrow> w | Some op0 \<Rightarrow> Do e st op0 step ft rt w)"

subsection \<open>The clock\<close>

definition Now :: "env \<Rightarrow> world \<Rightarrow> float64 \<times> world" where
  "Now e w = (f64_sub (clock e (reads w)) (baseTime (self w)), w\<lparr> reads := reads w + 1 \<rparr>)"

definition Seconds :: "world \<Rightarrow> float64" where
  "Seconds w = simTime (self w)"

subsection \<open>The op queue\<close>

text \<open>
  The non-blocking receive of \<^verbatim>\<open>pollSched\<close>: the first sender parked on the channel, if
  there is one (a nil channel is never ready).
\<close>

fun recv :: "chan option \<Rightarrow> sender list \<Rightarrow> (sender \<times> sender list) option" where
  "recv c [] = None"
| "recv c (p # ps) =
     (if c \<noteq> None \<and> via p = c then Some (p, ps)
      else map_option (\<lambda>(q, qs). (q, p # qs)) (recv c ps))"

text \<open>
  The loops have a bound on the number of times their body runs: \<open>None\<close> is a loop
  that has not ended within the bound.
\<close>

fun pollLoop ::
  "env \<Rightarrow> nat \<Rightarrow> chan option \<Rightarrow> float64 \<Rightarrow> float64 \<Rightarrow> gotime \<Rightarrow> world \<Rightarrow> world option" where
  "pollLoop e 0 c step ft rt w =
     (case recv c (parked w) of None \<Rightarrow> Some w | Some _ \<Rightarrow> None)"
| "pollLoop e (Suc n) c step ft rt w =
     (case recv c (parked w) of
        None \<Rightarrow> Some w
      | Some (p, ps) \<Rightarrow>
          pollLoop e n c step ft rt
            (Do e (FromQueue (ticket p)) (sop p) step ft rt (w\<lparr> parked := ps \<rparr>)))"

definition pollSched ::
  "env \<Rightarrow> nat \<Rightarrow> float64 \<Rightarrow> float64 \<Rightarrow> gotime \<Rightarrow> world \<Rightarrow> world option" where
  "pollSched e n step ft rt w = pollLoop e n (sched (self w)) step ft rt w"

definition frame ::
  "env \<Rightarrow> nat \<Rightarrow> float64 \<Rightarrow> float64 \<Rightarrow> gotime \<Rightarrow> world \<Rightarrow> world option" where
  "frame e n step ft rt w =
     (case pollSched e n step ft rt w of
        None \<Rightarrow> None
      | Some w1 \<Rightarrow> Some (runOp e AtFrame (Frame (self w1)) step ft rt w1))"

subsection \<open>One iteration: runSim\<close>

text \<open>
  The stepping loop of \<^verbatim>\<open>runSim\<close>, on its local variables \<^verbatim>\<open>hz\<close>, \<^verbatim>\<open>sim\<close> and \<^verbatim>\<open>now\<close>;
  it returns them with the state.
\<close>

fun simLoop ::
  "env \<Rightarrow> nat \<Rightarrow> int \<Rightarrow> float64 \<Rightarrow> float64 \<Rightarrow> float64 \<Rightarrow> float64 \<Rightarrow> world
   \<Rightarrow> (float64 \<times> float64 \<times> float64 \<times> world) option" where
  "simLoop e 0 ubase base step sm nw w =
     (if f64_lt sm nw then None else Some (step, sm, nw, w))"
| "simLoop e (Suc n) ubase base step sm nw w =
     (if f64_lt sm nw then
        (case frame e n step sm (realtime ubase base sm) w of
           None \<Rightarrow> None
         | Some w1 \<Rightarrow>
             let sm1 = f64_add sm step;
                 w2 = w1\<lparr> self := (self w1)\<lparr> simTime := sm1 \<rparr> \<rparr>;
                 step1 = (if f64_lt sm1 nw then hz (self w2) else step)
             in simLoop e n ubase base step1 sm1 (fst (Now e w2)) (snd (Now e w2)))
      else Some (step, sm, nw, w))"

text \<open>The render gate that ends \<^verbatim>\<open>runSim\<close>.\<close>

definition renderGate ::
  "env \<Rightarrow> int \<Rightarrow> float64 \<Rightarrow> float64 \<Rightarrow> float64 \<Rightarrow> world \<Rightarrow> world" where
  "renderGate e ubase base step nw w =
     (let rlimit = (0 < rfps (self w)); rhz0 = rhz (self w) in
      if rlimit then
        (if f64_ge nw (renderTime (self w)) then
           let w1 = runOp e AtRender (Render (self w)) step nw (realtime ubase base nw) w
           in w1\<lparr> self := (self w1)\<lparr> renderTime := f64_add nw rhz0 \<rparr> \<rparr>
         else w)
      else
        let w1 = runOp e AtRender (Render (self w)) step nw (realtime ubase base nw) w
        in w1\<lparr> self := (self w1)\<lparr> renderTime := nw \<rparr> \<rparr>)"

text \<open>
  The part of \<^verbatim>\<open>runSim\<close> between the stop check and the render gate: the pre-frame
  hook, the first reading of the clock and the stepping loop.
\<close>

definition stepper ::
  "env \<Rightarrow> nat \<Rightarrow> int \<Rightarrow> world \<Rightarrow> (float64 \<times> float64 \<times> float64 \<times> world) option" where
  "stepper e n ubase w =
     (let sm = simTime (self w); base = baseTime (self w); step = hz (self w);
          w1 = runOp e AtPreFrame (PreFrame (self w)) step sm (realtime ubase base sm) w
      in simLoop e n ubase base step sm (fst (Now e w1)) (snd (Now e w1)))"

definition runSim ::
  "env \<Rightarrow> nat \<Rightarrow> int \<Rightarrow> chan option \<Rightarrow> world \<Rightarrow> (error option \<times> world) option" where
  "runSim e n ubase stop w =
     (if is_closed stop w then Some (Some ErrStopped, w)
      else
        (case stepper e n ubase w of
           None \<Rightarrow> None
         | Some (step, sm, nw, w3) \<Rightarrow>
             Some (None, renderGate e ubase (baseTime (self w)) step nw w3)))"

subsection \<open>Run\<close>

text \<open>
  The loop of \<^verbatim>\<open>Run\<close>, bounded by \<open>k\<close> iterations, each of whose loops is bounded by
  \<open>n\<close>.
\<close>

fun runLoop ::
  "env \<Rightarrow> nat \<Rightarrow> nat \<Rightarrow> int \<Rightarrow> chan option \<Rightarrow> world \<Rightarrow> (error option \<times> world) option" where
  "runLoop e 0 n ubase stop w = None"
| "runLoop e (Suc k) n ubase stop w =
     (case runSim e n ubase stop w of
        None \<Rightarrow> None
      | Some (Some err, w1) \<Rightarrow> Some (Some err, w1)
      | Some (None, w1) \<Rightarrow> runLoop e k n ubase stop w1)"

text \<open>
  What \<^verbatim>\<open>Run\<close> does before its loop: it makes the op channel, stores the Unix time,
  and sets \<^verbatim>\<open>simTime\<close> to zero and \<^verbatim>\<open>baseTime\<close> to a reading of the clock.
\<close>

definition runInit :: "env \<Rightarrow> world \<Rightarrow> world" where
  "runInit e w =
     w\<lparr> self := (self w)\<lparr> sched := Some (chans w), runTime := unix e,
                          simTime := Finite 0, baseTime := clock e (reads w) \<rparr>,
        chans := chans w + 1,
        reads := reads w + 1 \<rparr>"

definition Run :: "env \<Rightarrow> nat \<Rightarrow> nat \<Rightarrow> world \<Rightarrow> (error option \<times> world) option" where
  "Run e k n w = runLoop e k n (unix e) (stopped (self w)) (runInit e w)"

text \<open>
  The state after \<open>k\<close> iterations of the loop of \<^verbatim>\<open>Run\<close> that all found the stop
  channel open (\<open>None\<close> when one of them found it closed, or did not end within its
  bound).
\<close>

fun afterIterations ::
  "env \<Rightarrow> nat \<Rightarrow> nat \<Rightarrow> int \<Rightarrow> chan option \<Rightarrow> world \<Rightarrow> world option" where
  "afterIterations e 0 n ubase stop w = Some w"
| "afterIterations e (Suc k) n ubase stop w =
     (case runSim e n ubase stop w of
        Some (None, w1) \<Rightarrow> afterIterations e k n ubase stop w1
      | _ \<Rightarrow> None)"

subsection \<open>Reading the record of calls\<close>

text \<open>The \<^verbatim>\<open>(step, frameTime)\<close> arguments of the calls made from one site, oldest first.\<close>

fun callsAt :: "site \<Rightarrow> event list \<Rightarrow> (float64 \<times> float64) list" where
  "callsAt st [] = []"
| "callsAt st (Did st1 op0 step ft rt # evs) =
     (if st1 = st then (step, ft) # callsAt st evs else callsAt st evs)"

text \<open>The tickets of the queued ops that were run, oldest first.\<close>

fun ranTickets :: "event list \<Rightarrow> nat list" where
  "ranTickets [] = []"
| "ranTickets (Did (FromQueue t) op0 step ft rt # evs) = t # ranTickets evs"
| "ranTickets (ev # evs) = ranTickets evs"

text \<open>
  \<open>stepsFrom sm fs sm1\<close>: the frame calls \<open>fs\<close> start at simulation time \<open>sm\<close>, each is
  made at the time the one before it reached by adding its own step, and the last one
  reaches \<open>sm1\<close>.
\<close>

fun stepsFrom :: "float64 \<Rightarrow> (float64 \<times> float64) list \<Rightarrow> float64 \<Rightarrow> bool" where
  "stepsFrom sm [] sm1 = (sm1 = sm)"
| "stepsFrom sm ((step, ft) # fs) sm1 = (ft = sm \<and> stepsFrom (f64_add sm step) fs sm1)"

text \<open>
  \<open>admitted e base i fs\<close>: each of the frame calls \<open>fs\<close> was made at a simulation time
  below the reading of \<^verbatim>\<open>Now()\<close> made before it, the first of these being reading \<open>i\<close>
  of the clock.
\<close>

fun admitted :: "env \<Rightarrow> float64 \<Rightarrow> nat \<Rightarrow> (float64 \<times> float64) list \<Rightarrow> bool" where
  "admitted e base i [] = True"
| "admitted e base i ((step, ft) # fs) =
     (f64_lt ft (f64_sub (clock e i) base) \<and> admitted e base (Suc i) fs)"

text \<open>
  \<open>increasing cs\<close>: each call is made at a time strictly above the one before it, which
  is that time plus that call's step.
\<close>

fun increasing :: "(float64 \<times> float64) list \<Rightarrow> bool" where
  "increasing [] = True"
| "increasing [c] = True"
| "increasing ((step, ft) # (step1, ft1) # cs) =
     (ft1 = f64_add ft step \<and> f64_lt ft ft1 \<and> increasing ((step1, ft1) # cs))"

text \<open>
  \<open>spaced d cs\<close>: each call is made at a time at least \<open>d\<close> after the one before it.
\<close>

fun spaced :: "float64 \<Rightarrow> (float64 \<times> float64) list \<Rightarrow> bool" where
  "spaced d [] = True"
| "spaced d [c] = True"
| "spaced d ((step, ft) # (step1, ft1) # cs) =
     (f64_le (f64_add ft d) ft1 \<and> spaced d ((step1, ft1) # cs))"

subsection \<open>Notions used in the proofs\<close>

text \<open>
  \<open>hooksOnly w w1\<close>: \<open>w1\<close> differs from \<open>w\<close> at most in what calls of \<^verbatim>\<open>Do\<close> change,
  that is the rates, the closed channels, the parked senders and the record of calls.
\<close>

definition hooksOnly :: "world \<Rightarrow> world \<Rightarrow> bool" where
  "hooksOnly w w1 =
     (reads w1 = reads w \<and> chans w1 = chans w
      \<and> PreFrame (self w1) = PreFrame (self w) \<and> Frame (self w1) = Frame (self w)
      \<and> Render (self w1) = Render (self w) \<and> runTime (self w1) = runTime (self w)
      \<and> baseTime (self w1) = baseTime (self w) \<and> simTime (self w1) = simTime (self w)
      \<and> renderTime (self w1) = renderTime (self w) \<and> sched (self w1) = sched (self w)
      \<and> stopped (self w1) = stopped (self w))"

text \<open>The step of the simulation is positive (it may be infinite).\<close>

definition posRate :: "world \<Rightarrow> bool" where
  "posRate w = f64_lt (Finite 0) (hz (self w))"

text \<open>No op of the environment changes the render rate.\<close>

definition keepsRenderRate :: "env \<Rightarrow> bool" where
  "keepsRenderRate e =
     (\<forall>i op0 step ft rt v. CallSetRenderFPS v \<notin> set (behaviour e i op0 step ft rt))"

text \<open>
  \<open>steady w\<close>: the step is positive, \<open>simTime\<close> is not negative, the frame calls
  recorded so far have positive steps and strictly increasing times, each the time before
  it plus the step before it, and \<open>simTime\<close> is the time of the last one plus its step.
\<close>

definition steady :: "world \<Rightarrow> bool" where
  "steady w =
     (posRate w \<and> f64_le (Finite 0) (simTime (self w))
      \<and> list_all (\<lambda>c. f64_lt (Finite 0) (fst c)) (callsAt AtFrame (trace w))
      \<and> increasing (callsAt AtFrame (trace w))
      \<and> (callsAt AtFrame (trace w) \<noteq> [] \<longrightarrow>
           simTime (self w) =
             f64_add (snd (last (callsAt AtFrame (trace w)))) (fst (last (callsAt AtFrame (trace w))))
           \<and> f64_lt (snd (last (callsAt AtFrame (trace w)))) (simTime (self w))))"

subsection \<open>The example program\<close>

text \<open>
  The structure the example program builds with \<^verbatim>\<open>gt3.NewSim(2, 30, down)\<close> and its
  three hooks, the stop channel being channel 0 and the hooks the ops 0, 1 and 2.
\<close>

definition example_sim :: Sim where
  "example_sim =
     \<lparr> PreFrame = Some 0, Frame = Some 1, Render = Some 2,
       fps = 2, hz = Finite (1 / 2), rfps = 30, rhz = Finite (1 / 30),
       runTime = 0, baseTime = Finite 0, simTime = Finite 0,
       renderTime = Finite 0, sched = None, stopped = Some 0 \<rparr>"

text \<open>
  The world in which the example program calls \<^verbatim>\<open>Run\<close>: the stop channel is open
  and nobody has submitted an op.
\<close>

definition example_world :: world where
  "example_world =
     \<lparr> self = example_sim, reads = 0, closed = {}, chans = 1, parked = [],
       tickets = 0, trace = [] \<rparr>"

text \<open>
  An environment for it: the clock advances by 0.3 seconds from a reading to the next,
  and the pre-frame hook (op 0) closes the stop channel once the simulation has reached
  one second.
\<close>

definition example_env :: env where
  "example_env =
     \<lparr> clock = (\<lambda>i. Finite (3 * of_nat i / 10)),
       unix = 1500000000,
       behaviour = (\<lambda>i op0 step ft rt.
          if op0 = 0 \<and> f64_le (Finite 1) ft then [CallClose 0] else []) \<rparr>"

text \<open>The state when \<^verbatim>\<open>Run\<close> enters its loop there, and after the first iteration.\<close>

definition example_start :: world where
  "example_start = runInit example_env example_world"

definition example_after1 :: world where
  "example_after1 =
     \<lparr> self =
         \<lparr> PreFrame = Some 0, Frame = Some 1, Render = Some 2,
           fps = 2, hz = Finite (1 / 2), rfps = 30, rhz = Finite (1 / 30),
           runTime = 1500000000, baseTime = Finite 0, simTime = Finite 1,
           renderTime = Finite (14 / 15), sched = Some 1, stopped = Some 0 \<rparr>,
       reads = 4, closed = {}, chans = 2, parked = [], tickets = 0,
       trace =
         [Did AtPreFrame 0 (Finite (1 / 2)) (Finite 0) (Unix 1500000000 0),
          Did AtFrame 1 (Finite (1 / 2)) (Finite 0) (Unix 1500000000 0),
          Did AtFrame 1 (Finite (1 / 2)) (Finite (1 / 2)) (Unix 1500000000 500000000),
          Did AtRender 2 (Finite (1 / 2)) (Finite (9 / 10)) (Unix 1500000000 900000000)] \<rparr>"

text \<open>The same with \<^verbatim>\<open>gt3.NewSim(2, 0, down)\<close>, where rendering is not limited.\<close>

definition unlimited_start :: world where
  "unlimited_start =
     runInit example_env
       (example_world\<lparr> self := example_sim\<lparr> rfps := 0, rhz := Finite 0 \<rparr> \<rparr>)"

definition unlimited_after1 :: world where
  "unlimited_after1 =
     \<lparr> self =
         \<lparr> PreFrame = Some 0, Frame = Some 1, Render = Some 2,
           fps = 2, hz = Finite (1 / 2), rfps = 0, rhz = Finite 0,
           runTime = 1500000000, baseTime = Finite 0, simTime = Finite 1,
           renderTime = Finite (9 / 10), sched = Some 1, stopped = Some 0 \<rparr>,
       reads = 4, closed = {}, chans = 2, parked = [], tickets = 0,
       trace =
         [Did AtPreFrame 0 (Finite (1 / 2)) (Finite 0) (Unix 1500000000 0),
          Did AtFrame 1 (Finite (1 / 2)) (Finite 0) (Unix 1500000000 0),
          Did AtFrame 1 (Finite (1 / 2)) (Finite (1 / 2)) (Unix 1500000000 500000000),
          Did AtRender 2 (Finite (1 / 2)) (Finite (9 / 10)) (Unix 1500000000 900000000)] \<rparr>"

text \<open>
  The example program's state after its second iteration, in which the pre-frame hook
  closes the stop channel.
\<close>

definition example_after2 :: world where
  "example_after2 =
     \<lparr> self =
         \<lparr> PreFrame = Some 0, Frame = Some 1, Render = Some 2,
           fps = 2, hz = Finite (1 / 2), rfps = 30, rhz = Finite (1 / 30),
           runTime = 1500000000, baseTime = Finite 0, simTime = Finite (3 / 2),
           renderTime = Finite (23 / 15), sched = Some 1, stopped = Some 0 \<rparr>,
       reads = 6, closed = {0}, chans = 2, parked = [], tickets = 0,
       trace =
         [Did AtPreFrame 0 (Finite (1 / 2)) (Finite 0) (Unix 1500000000 0),
          Did AtFrame 1 (Finite (1 / 2)) (Finite 0) (Unix 1500000000 0),
          Did AtFrame 1 (Finite (1 / 2)) (Finite (1 / 2)) (Unix 1500000000 500000000),
          Did AtRender 2 (Finite (1 / 2)) (Finite (9 / 10)) (Unix 1500000000 900000000),
          Did AtPreFrame 0 (Finite (1 / 2)) (Finite 1) (Unix 1500000001 0),
          Did AtFrame 1 (Finite (1 / 2)) (Finite 1) (Unix 1500000001 0),
          Did AtRender 2 (Finite (1 / 2)) (Finite (3 / 2)) (Unix 1500000001 500000000)] \<rparr>"

section \<open>What the calls of the hooks and the loops leave unchanged\<close>

lemma callsAt_append: "callsAt st (xs @ ys) = callsAt st xs @ callsAt st ys"
proof (induction xs)
  case Nil
  show ?case by simp
next
  case (Cons ev xs)
  then show ?case by (cases ev) simp
qed

lemma ranTickets_append: "ranTickets (xs @ ys) = ranTickets xs @ ranTickets ys"
  by (induction xs rule: ranTickets.induct) simp_all

lemma hooksOnly_refl: "hooksOnly w w"
  by (simp add: hooksOnly_def)

lemma hooksOnly_trans: "hooksOnly w w1 \<Longrightarrow> hooksOnly w1 w2 \<Longrightarrow> hooksOnly w w2"
  by (simp add: hooksOnly_def)

lemma hooksOnly_act: "hooksOnly w (act w a)"
  by (cases a)
    (simp_all add: hooksOnly_def SetFPS_def SetRenderFPS_def close_chan_def Sched_def
      Sync_def submit_def)

lemma trace_act: "trace (act w a) = trace w"
  by (cases a)
    (simp_all add: SetFPS_def SetRenderFPS_def close_chan_def Sched_def Sync_def submit_def)

lemma posRate_act: "posRate w \<Longrightarrow> posRate (act w a)"
  by (cases a)
    (simp_all add: posRate_def SetFPS_def SetRenderFPS_def close_chan_def Sched_def
      Sync_def submit_def float64_of_int_def)

lemma hooksOnly_acts: "hooksOnly w (foldl act w as)"
proof (induction as arbitrary: w)
  case Nil
  show ?case by (simp add: hooksOnly_refl)
next
  case (Cons a as)
  have "hooksOnly w (act w a)" by (rule hooksOnly_act)
  moreover have "hooksOnly (act w a) (foldl act (act w a) as)" by (rule Cons.IH)
  ultimately show ?case by (simp add: hooksOnly_trans)
qed

lemma trace_acts: "trace (foldl act w as) = trace w"
  by (induction as arbitrary: w) (simp_all add: trace_act)

lemma posRate_acts: "posRate w \<Longrightarrow> posRate (foldl act w as)"
  by (induction as arbitrary: w) (simp_all add: posRate_act)

lemma hooksOnly_Do: "hooksOnly w (Do e st op0 step ft rt w)"
proof -
  have "hooksOnly w (w\<lparr> trace := trace w @ [Did st op0 step ft rt] \<rparr>)"
    by (simp add: hooksOnly_def)
  then show ?thesis
    unfolding Do_def by (rule hooksOnly_trans) (rule hooksOnly_acts)
qed

lemma trace_Do: "trace (Do e st op0 step ft rt w) = trace w @ [Did st op0 step ft rt]"
  by (simp add: Do_def trace_acts)

lemma posRate_Do: "posRate w \<Longrightarrow> posRate (Do e st op0 step ft rt w)"
  unfolding Do_def by (rule posRate_acts) (simp add: posRate_def)

lemma hooksOnly_runOp: "hooksOnly w (runOp e st opt step ft rt w)"
  by (cases opt) (simp_all add: runOp_def hooksOnly_refl hooksOnly_Do)

lemma posRate_runOp: "posRate w \<Longrightarrow> posRate (runOp e st opt step ft rt w)"
  by (cases opt) (simp_all add: runOp_def posRate_Do)

lemma trace_runOp:
  "trace (runOp e st opt step ft rt w) =
     trace w @ (case opt of None \<Rightarrow> [] | Some op0 \<Rightarrow> [Did st op0 step ft rt])"
  by (cases opt) (simp_all add: runOp_def trace_Do)

lemma pollLoop_keeps:
  assumes "pollLoop e n c step ft rt w = Some w1"
  shows "hooksOnly w w1 \<and> (posRate w \<longrightarrow> posRate w1)
    \<and> (\<forall>st. (\<forall>t. st \<noteq> FromQueue t) \<longrightarrow> callsAt st (trace w1) = callsAt st (trace w))"
  using assms
proof (induction n arbitrary: w)
  case 0
  then show ?case by (auto simp add: hooksOnly_refl split: option.splits)
next
  case (Suc n)
  show ?case
  proof (cases "recv c (parked w)")
    case None
    with Suc.prems show ?thesis by (simp add: hooksOnly_refl)
  next
    case (Some a)
    obtain p ps where a: "a = (p, ps)" by (cases a)
    define w0 where "w0 = Do e (FromQueue (ticket p)) (sop p) step ft rt (w\<lparr> parked := ps \<rparr>)"
    from Suc.prems Some a have run: "pollLoop e n c step ft rt w0 = Some w1"
      by (simp add: w0_def)
    note ih = Suc.IH [OF run]
    have "hooksOnly (w\<lparr> parked := ps \<rparr>) w0"
      unfolding w0_def by (rule hooksOnly_Do)
    then have h0: "hooksOnly w w0" by (simp add: hooksOnly_def)
    have p0: "posRate w \<Longrightarrow> posRate w0"
      unfolding w0_def by (rule posRate_Do) (simp add: posRate_def)
    have t0: "trace w0 = trace w @ [Did (FromQueue (ticket p)) (sop p) step ft rt]"
      by (simp add: w0_def trace_Do)
    from ih h0 have "hooksOnly w w1" by (blast intro: hooksOnly_trans)
    moreover from ih p0 have "posRate w \<longrightarrow> posRate w1" by blast
    moreover from ih t0
    have "\<forall>st. (\<forall>t. st \<noteq> FromQueue t) \<longrightarrow> callsAt st (trace w1) = callsAt st (trace w)"
      by (simp add: callsAt_append)
    ultimately show ?thesis by blast
  qed
qed

lemma frame_keeps:
  assumes "frame e n step ft rt w = Some w1"
  shows "hooksOnly w w1" and "posRate w \<Longrightarrow> posRate w1"
    and "callsAt AtFrame (trace w1) =
      callsAt AtFrame (trace w) @ (case Frame (self w) of None \<Rightarrow> [] | Some f \<Rightarrow> [(step, ft)])"
    and "callsAt AtRender (trace w1) = callsAt AtRender (trace w)"
    and "callsAt AtPreFrame (trace w1) = callsAt AtPreFrame (trace w)"
proof -
  from assms obtain w0 where
    poll: "pollLoop e n (sched (self w)) step ft rt w = Some w0" and
    w1: "w1 = runOp e AtFrame (Frame (self w0)) step ft rt w0"
    by (auto simp add: frame_def pollSched_def split: option.splits)
  note k = pollLoop_keeps [OF poll]
  from k have h0: "hooksOnly w w0" by blast
  then have fr: "Frame (self w0) = Frame (self w)" by (simp add: hooksOnly_def)
  show "hooksOnly w w1"
    unfolding w1 using h0 by (rule hooksOnly_trans) (rule hooksOnly_runOp)
  show "posRate w \<Longrightarrow> posRate w1"
    unfolding w1 using k by (blast intro: posRate_runOp)
  from k have c: "callsAt AtFrame (trace w0) = callsAt AtFrame (trace w)"
    "callsAt AtRender (trace w0) = callsAt AtRender (trace w)"
    "callsAt AtPreFrame (trace w0) = callsAt AtPreFrame (trace w)" by simp_all
  show "callsAt AtFrame (trace w1) =
      callsAt AtFrame (trace w) @ (case Frame (self w) of None \<Rightarrow> [] | Some f \<Rightarrow> [(step, ft)])"
    by (simp add: w1 trace_runOp callsAt_append c fr split: option.splits)
  show "callsAt AtRender (trace w1) = callsAt AtRender (trace w)"
    by (simp add: w1 trace_runOp callsAt_append c split: option.splits)
  show "callsAt AtPreFrame (trace w1) = callsAt AtPreFrame (trace w)"
    by (simp add: w1 trace_runOp callsAt_append c split: option.splits)
qed


lemma simLoop_keeps:
  assumes "simLoop e n ubase base step sm nw w = Some (step1, sm1, nw1, w1)"
  shows "PreFrame (self w1) = PreFrame (self w) \<and> Frame (self w1) = Frame (self w)
    \<and> Render (self w1) = Render (self w) \<and> runTime (self w1) = runTime (self w)
    \<and> baseTime (self w1) = baseTime (self w) \<and> renderTime (self w1) = renderTime (self w)
    \<and> sched (self w1) = sched (self w) \<and> stopped (self w1) = stopped (self w)
    \<and> chans w1 = chans w \<and> (posRate w \<longrightarrow> posRate w1)
    \<and> callsAt AtRender (trace w1) = callsAt AtRender (trace w)
    \<and> callsAt AtPreFrame (trace w1) = callsAt AtPreFrame (trace w)"
  using assms
proof (induction n arbitrary: step sm nw w)
  case 0
  then show ?case by (simp split: if_splits)
next
  case (Suc n)
  show ?case
  proof (cases "f64_lt sm nw")
    case False
    with Suc.prems show ?thesis by simp
  next
    case True
    with Suc.prems obtain wa where
      fr: "frame e n step sm (realtime ubase base sm) w = Some wa"
      by (auto split: option.splits)
    define wb where "wb = wa\<lparr> self := (self wa)\<lparr> simTime := f64_add sm step \<rparr> \<rparr>"
    define stepb where "stepb = (if f64_lt (f64_add sm step) nw then hz (self wb) else step)"
    from Suc.prems True fr
    have run: "simLoop e n ubase base stepb (f64_add sm step) (fst (Now e wb)) (snd (Now e wb))
        = Some (step1, sm1, nw1, w1)"
      by (auto simp add: wb_def stepb_def Let_def split: if_splits)
    note ih = Suc.IH [OF run]
    note k = frame_keeps [OF fr]
    from k(1) have "PreFrame (self (snd (Now e wb))) = PreFrame (self w)"
      "Frame (self (snd (Now e wb))) = Frame (self w)"
      "Render (self (snd (Now e wb))) = Render (self w)"
      "runTime (self (snd (Now e wb))) = runTime (self w)"
      "baseTime (self (snd (Now e wb))) = baseTime (self w)"
      "renderTime (self (snd (Now e wb))) = renderTime (self w)"
      "sched (self (snd (Now e wb))) = sched (self w)"
      "stopped (self (snd (Now e wb))) = stopped (self w)"
      "chans (snd (Now e wb)) = chans w"
      by (simp_all add: hooksOnly_def Now_def wb_def)
    moreover from k(2) have "posRate w \<Longrightarrow> posRate (snd (Now e wb))"
      by (simp add: posRate_def Now_def wb_def)
    moreover from k(4,5) have "callsAt AtRender (trace (snd (Now e wb))) = callsAt AtRender (trace w)"
      "callsAt AtPreFrame (trace (snd (Now e wb))) = callsAt AtPreFrame (trace w)"
      by (simp_all add: Now_def wb_def)
    ultimately show ?thesis using ih by auto
  qed
qed

lemma simLoop_frames:
  assumes "simLoop e n ubase base step sm nw w = Some (step1, sm1, nw1, w1)"
    and "baseTime (self w) = base" and "reads w = Suc i"
    and "nw = f64_sub (clock e i) base"
  shows "\<exists>fs. reads w1 = reads w + length fs
    \<and> admitted e base i fs \<and> stepsFrom sm fs sm1
    \<and> callsAt AtFrame (trace w1) =
        callsAt AtFrame (trace w) @ (if Frame (self w) = None then [] else fs)
    \<and> \<not> f64_lt sm1 nw1 \<and> nw1 = f64_sub (clock e (i + length fs)) base
    \<and> (fs = [] \<longrightarrow> w1 = w \<and> step1 = step)
    \<and> (fs \<noteq> [] \<longrightarrow> simTime (self w1) = sm1 \<and> fst (hd fs) = step)"
  using assms
proof (induction n arbitrary: step sm nw w i)
  case 0
  then have "\<not> f64_lt sm nw" "w1 = w" "sm1 = sm" "nw1 = nw" "step1 = step"
    by (simp_all split: if_splits)
  with 0 show ?case by (intro exI [of _ "[]"]) simp
next
  case (Suc n)
  show ?case
  proof (cases "f64_lt sm nw")
    case False
    with Suc.prems have "w1 = w" "sm1 = sm" "nw1 = nw" "step1 = step" by simp_all
    with False Suc.prems show ?thesis by (intro exI [of _ "[]"]) simp
  next
    case True
    with Suc.prems obtain wa where
      fr: "frame e n step sm (realtime ubase base sm) w = Some wa"
      by (auto split: option.splits)
    define wb where "wb = wa\<lparr> self := (self wa)\<lparr> simTime := f64_add sm step \<rparr> \<rparr>"
    define stepb where "stepb = (if f64_lt (f64_add sm step) nw then hz (self wb) else step)"
    from Suc.prems(1) True fr
    have run: "simLoop e n ubase base stepb (f64_add sm step) (fst (Now e wb)) (snd (Now e wb))
        = Some (step1, sm1, nw1, w1)"
      by (auto simp add: wb_def stepb_def Let_def split: if_splits)
    note k = frame_keeps [OF fr]
    from k(1) Suc.prems have b: "baseTime (self (snd (Now e wb))) = base"
      and r: "reads (snd (Now e wb)) = Suc (Suc i)"
      and nw: "fst (Now e wb) = f64_sub (clock e (Suc i)) base"
      and f: "Frame (self (snd (Now e wb))) = Frame (self w)"
      by (simp_all add: hooksOnly_def Now_def wb_def)
    from Suc.IH [OF run b r nw] obtain fs where fs:
      "reads w1 = reads (snd (Now e wb)) + length fs"
      "admitted e base (Suc i) fs" "stepsFrom (f64_add sm step) fs sm1"
      "callsAt AtFrame (trace w1) = callsAt AtFrame (trace (snd (Now e wb)))
         @ (if Frame (self w) = None then [] else fs)"
      "\<not> f64_lt sm1 nw1" "nw1 = f64_sub (clock e (Suc i + length fs)) base"
      "fs = [] \<longrightarrow> w1 = snd (Now e wb) \<and> step1 = stepb"
      "fs \<noteq> [] \<longrightarrow> simTime (self w1) = sm1 \<and> fst (hd fs) = stepb"
      unfolding f by blast
    have tr: "callsAt AtFrame (trace (snd (Now e wb))) =
        callsAt AtFrame (trace w) @ (if Frame (self w) = None then [] else [(step, sm)])"
      using k(3) by (simp add: Now_def wb_def split: option.splits)
    have sim: "simTime (self w1) = sm1"
    proof (cases "fs = []")
      case True
      with fs(3,7) show ?thesis by (simp add: Now_def wb_def)
    next
      case False
      with fs(8) show ?thesis by simp
    qed
    show ?thesis
    proof (intro exI [of _ "(step, sm) # fs"] conjI)
      show "reads w1 = reads w + length ((step, sm) # fs)"
        using fs(1) r Suc.prems(3) by simp
      show "admitted e base i ((step, sm) # fs)"
        using fs(2) True Suc.prems(4) by simp
      show "stepsFrom sm ((step, sm) # fs) sm1" using fs(3) by simp
      show "callsAt AtFrame (trace w1) =
          callsAt AtFrame (trace w) @ (if Frame (self w) = None then [] else (step, sm) # fs)"
        using fs(4) tr by simp
      show "\<not> f64_lt sm1 nw1" by (rule fs(5))
      show "nw1 = f64_sub (clock e (i + length ((step, sm) # fs))) base"
        using fs(6) by simp
      show "(step, sm) # fs = [] \<longrightarrow> w1 = w \<and> step1 = step" by simp
      show "(step, sm) # fs \<noteq> [] \<longrightarrow> simTime (self w1) = sm1 \<and> fst (hd ((step, sm) # fs)) = step"
        using sim by simp
    qed
  qed
qed

lemma Now_eq:
  "fst (Now e w) = f64_sub (clock e (reads w)) (baseTime (self w))"
  "snd (Now e w) = w\<lparr> reads := reads w + 1 \<rparr>"
  by (simp_all add: Now_def)

lemma stepper_frames:
  assumes "stepper e n ubase w = Some (step1, sm1, nw1, w3)"
  shows "\<exists>fs. reads w3 = reads w + 1 + length fs
    \<and> admitted e (baseTime (self w)) (reads w) fs
    \<and> stepsFrom (simTime (self w)) fs sm1
    \<and> simTime (self w3) = sm1
    \<and> nw1 = f64_sub (clock e (reads w + length fs)) (baseTime (self w))
    \<and> \<not> f64_lt sm1 nw1
    \<and> callsAt AtFrame (trace w3) =
        callsAt AtFrame (trace w) @ (if Frame (self w) = None then [] else fs)
    \<and> (fs = [] \<longrightarrow> step1 = hz (self w))
    \<and> (fs \<noteq> [] \<longrightarrow> fst (hd fs) = hz (self w))"
proof -
  define w0 where "w0 = runOp e AtPreFrame (PreFrame (self w)) (hz (self w)) (simTime (self w))
    (realtime ubase (baseTime (self w)) (simTime (self w))) w"
  have h0: "hooksOnly w w0" unfolding w0_def by (rule hooksOnly_runOp)
  have tr0: "callsAt AtFrame (trace w0) = callsAt AtFrame (trace w)"
    by (simp add: w0_def trace_runOp callsAt_append split: option.splits)
  from assms have run: "simLoop e n ubase (baseTime (self w)) (hz (self w)) (simTime (self w))
      (fst (Now e w0)) (snd (Now e w0)) = Some (step1, sm1, nw1, w3)"
    by (simp add: stepper_def Let_def w0_def)
  from h0 have b: "baseTime (self (snd (Now e w0))) = baseTime (self w)"
    and r: "reads (snd (Now e w0)) = Suc (reads w)"
    and nw: "fst (Now e w0) = f64_sub (clock e (reads w)) (baseTime (self w))"
    and f: "Frame (self (snd (Now e w0))) = Frame (self w)"
    and s: "simTime (self (snd (Now e w0))) = simTime (self w)"
    and t: "trace (snd (Now e w0)) = trace w0"
    by (simp_all add: hooksOnly_def Now_eq)
  from simLoop_frames [OF run b r nw] obtain fs where fs:
    "reads w3 = reads (snd (Now e w0)) + length fs"
    "admitted e (baseTime (self w)) (reads w) fs"
    "stepsFrom (simTime (self w)) fs sm1"
    "callsAt AtFrame (trace w3) = callsAt AtFrame (trace (snd (Now e w0)))
       @ (if Frame (self w) = None then [] else fs)"
    "\<not> f64_lt sm1 nw1" "nw1 = f64_sub (clock e (reads w + length fs)) (baseTime (self w))"
    "fs = [] \<longrightarrow> w3 = snd (Now e w0) \<and> step1 = hz (self w)"
    "fs \<noteq> [] \<longrightarrow> simTime (self w3) = sm1 \<and> fst (hd fs) = hz (self w)"
    unfolding f by blast
  have sim: "simTime (self w3) = sm1"
  proof (cases "fs = []")
    case True
    with fs(3,7) s show ?thesis by simp
  next
    case False
    with fs(8) show ?thesis by simp
  qed
  from fs sim r t tr0 show ?thesis
    by (intro exI [of _ fs]) simp
qed

lemma stepper_keeps:
  assumes "stepper e n ubase w = Some (step1, sm1, nw1, w3)"
  shows "PreFrame (self w3) = PreFrame (self w) \<and> Frame (self w3) = Frame (self w)
    \<and> Render (self w3) = Render (self w) \<and> runTime (self w3) = runTime (self w)
    \<and> baseTime (self w3) = baseTime (self w) \<and> renderTime (self w3) = renderTime (self w)
    \<and> sched (self w3) = sched (self w) \<and> stopped (self w3) = stopped (self w)
    \<and> chans w3 = chans w \<and> (posRate w \<longrightarrow> posRate w3)
    \<and> callsAt AtRender (trace w3) = callsAt AtRender (trace w)"
proof -
  define w0 where "w0 = runOp e AtPreFrame (PreFrame (self w)) (hz (self w)) (simTime (self w))
    (realtime ubase (baseTime (self w)) (simTime (self w))) w"
  have h0: "hooksOnly w w0" unfolding w0_def by (rule hooksOnly_runOp)
  have p0: "posRate w \<Longrightarrow> posRate w0" unfolding w0_def by (rule posRate_runOp)
  have tr0: "callsAt AtRender (trace w0) = callsAt AtRender (trace w)"
    by (simp add: w0_def trace_runOp callsAt_append split: option.splits)
  from assms have run: "simLoop e n ubase (baseTime (self w)) (hz (self w)) (simTime (self w))
      (fst (Now e w0)) (snd (Now e w0)) = Some (step1, sm1, nw1, w3)"
    by (simp add: stepper_def Let_def w0_def)
  note k = simLoop_keeps [OF run]
  from p0 have p1: "posRate w \<Longrightarrow> posRate (snd (Now e w0))"
    by (simp add: posRate_def Now_eq)
  from k h0 tr0 p1 show ?thesis by (simp add: hooksOnly_def Now_eq)
qed

lemma renderGate_keeps:
  "PreFrame (self (renderGate e ubase base step nw w)) = PreFrame (self w)
   \<and> Frame (self (renderGate e ubase base step nw w)) = Frame (self w)
   \<and> Render (self (renderGate e ubase base step nw w)) = Render (self w)
   \<and> runTime (self (renderGate e ubase base step nw w)) = runTime (self w)
   \<and> baseTime (self (renderGate e ubase base step nw w)) = baseTime (self w)
   \<and> simTime (self (renderGate e ubase base step nw w)) = simTime (self w)
   \<and> sched (self (renderGate e ubase base step nw w)) = sched (self w)
   \<and> stopped (self (renderGate e ubase base step nw w)) = stopped (self w)
   \<and> chans (renderGate e ubase base step nw w) = chans w
   \<and> reads (renderGate e ubase base step nw w) = reads w
   \<and> (posRate w \<longrightarrow> posRate (renderGate e ubase base step nw w))
   \<and> callsAt AtFrame (trace (renderGate e ubase base step nw w)) = callsAt AtFrame (trace w)"
proof -
  define w1 where "w1 = runOp e AtRender (Render (self w)) step nw (realtime ubase base nw) w"
  have h: "hooksOnly w w1" unfolding w1_def by (rule hooksOnly_runOp)
  have p: "posRate w \<Longrightarrow> posRate w1" unfolding w1_def by (rule posRate_runOp)
  have t: "callsAt AtFrame (trace w1) = callsAt AtFrame (trace w)"
    by (simp add: w1_def trace_runOp callsAt_append split: option.splits)
  from h p t show ?thesis
    by (simp add: renderGate_def Let_def w1_def [symmetric] hooksOnly_def posRate_def)
qed

lemma renderGate_calls:
  "callsAt AtRender (trace (renderGate e ubase base step nw w)) =
     callsAt AtRender (trace w) @
       (if (0 < rfps (self w) \<longrightarrow> f64_ge nw (renderTime (self w))) \<and> Render (self w) \<noteq> None
        then [(step, nw)] else [])"
  "renderTime (self (renderGate e ubase base step nw w)) =
     (if 0 < rfps (self w) then
        (if f64_ge nw (renderTime (self w)) then f64_add nw (rhz (self w))
         else renderTime (self w))
      else nw)"
  by (auto simp add: renderGate_def Let_def trace_runOp callsAt_append split: option.splits)

lemma runSim_open:
  assumes "runSim e n ubase stop w = Some (None, w1)"
  shows "\<not> is_closed stop w"
    and "\<exists>step sm nw w3. stepper e n ubase w = Some (step, sm, nw, w3)
        \<and> w1 = renderGate e ubase (baseTime (self w)) step nw w3"
  using assms by (auto simp add: runSim_def split: if_splits option.splits)

section \<open>Rates\<close>

text \<open>
  C6. For every prior state and every negative rate, \<^verbatim>\<open>SetFPS\<close> returns the error
  \<^verbatim>\<open>ErrBadFPS\<close> (with previous rate 0) and leaves the structure, so its \<open>fps\<close> and
  \<open>hz\<close> fields, as it was.
\<close>

theorem SetFPS_negative_rejected:
  assumes "fps0 < 0"
  shows "snd (fst (SetFPS fps0 s)) = Some ErrBadFPS
    \<and> snd (SetFPS fps0 s) = s
    \<and> fps (snd (SetFPS fps0 s)) = fps s
    \<and> hz (snd (SetFPS fps0 s)) = hz s"
  using assms by (simp add: SetFPS_def)

theorem SetFPS_negative_rejected_witness:
  "(-1::int) < 0 \<and> snd (fst (SetFPS (-1) example_sim)) = Some ErrBadFPS
   \<and> fps (snd (SetFPS (-1) example_sim)) = 2
   \<and> hz (snd (SetFPS (-1) example_sim)) = Finite (1 / 2)"
proof -
  have neg: "(-1::int) < 0" by simp
  from SetFPS_negative_rejected [OF neg, of example_sim]
  show ?thesis by (simp add: example_sim_def)
qed

text \<open>
  C7. \<^verbatim>\<open>NewSim\<close> panics exactly when its rate is not positive; for a positive rate
  the structure it returns has \<open>hz = 1 / fps\<close>, and \<open>rhz = 1 / renderfps\<close> when the
  render rate is positive. (Finite values being exact here, the equalities hold
  without a tolerance.)
\<close>

theorem NewSim_panics_iff:
  "((\<exists>msg. NewSim fps0 renderfps stop = Inl msg) \<longleftrightarrow> fps0 \<le> 0)
   \<and> (0 < fps0 \<longrightarrow> (\<exists>s. NewSim fps0 renderfps stop = Inr s
          \<and> fps s = fps0 \<and> hz s = Finite (1 / of_int fps0)
          \<and> (0 < renderfps \<longrightarrow> rhz s = Finite (1 / of_int renderfps))))"
  by (auto simp add: NewSim_def float64_of_int_def Let_def)

theorem NewSim_panics_iff_witness:
  "(0::int) < 2 \<and> (0::int) < 30
   \<and> (\<exists>s. NewSim 2 30 (Some 0) = Inr s \<and> fps s = 2 \<and> hz s = Finite (1 / 2)
          \<and> rhz s = Finite (1 / 30))
   \<and> \<not> (\<exists>msg. NewSim 2 30 (Some 0) = Inl msg)
   \<and> (\<exists>msg. NewSim 0 30 (Some 0) = Inl msg)"
  using NewSim_panics_iff [of 2 30 "Some 0"] NewSim_panics_iff [of 0 30 "Some 0"]
  by simp

text \<open>
  C8. For every prior state \<^verbatim>\<open>SetFPS(0)\<close> is accepted: the error is nil, the previous
  rate is returned, and \<open>hz\<close> becomes \<open>1 / 0\<close>, the positive infinity; the constructor
  panics on the same rate.
\<close>

theorem SetFPS_zero_accepted:
  "SetFPS 0 s = ((fps s, None), s\<lparr> fps := 0, hz := PosInf \<rparr>)
   \<and> NewSim 0 renderfps stop = Inl ''gt3: simloop FPS must be > 0''"
  by (simp add: SetFPS_def NewSim_def float64_of_int_def)

section \<open>The stepper\<close>

lemma example_first_iteration:
  "runSim example_env 2 (unix example_env) (Some 0) example_start = Some (None, example_after1)"
  unfolding example_start_def by code_simp

text \<open>
  C1, as amended. In every iteration the stepper advances \<open>simTime\<close> as long as
  \<open>simTime < Now()\<close>, the clock being read again before each test: the iteration makes
  one reading more than it makes increments; each increment is a frame call at the
  current \<open>simTime\<close>, which was below the reading made before it, and adds that call's
  step to \<open>simTime\<close>; the reading that ends the stepping is not above \<open>simTime\<close>. So an
  increment is made exactly when \<open>simTime\<close> is below the first reading, whether or not a
  full step of real time is unconsumed; when it is not below, there is no frame call and
  \<open>simTime\<close> is unchanged.
\<close>

theorem stepper_runs_while_behind:
  assumes "runSim e n ubase stop w = Some (None, w1)"
  shows "\<exists>fs. reads w1 = reads w + 1 + length fs
    \<and> admitted e (baseTime (self w)) (reads w) fs
    \<and> \<not> f64_lt (simTime (self w1)) (f64_sub (clock e (reads w + length fs)) (baseTime (self w)))
    \<and> stepsFrom (simTime (self w)) fs (simTime (self w1))
    \<and> callsAt AtFrame (trace w1) =
        callsAt AtFrame (trace w) @ (if Frame (self w) = None then [] else fs)
    \<and> (f64_lt (simTime (self w)) (f64_sub (clock e (reads w)) (baseTime (self w)))
        \<longleftrightarrow> fs \<noteq> [])"
proof -
  from runSim_open(2) [OF assms] obtain step sm nw w3 where
    st: "stepper e n ubase w = Some (step, sm, nw, w3)" and
    w1: "w1 = renderGate e ubase (baseTime (self w)) step nw w3"
    by blast
  from stepper_frames [OF st] obtain fs where fs:
    "reads w3 = reads w + 1 + length fs"
    "admitted e (baseTime (self w)) (reads w) fs"
    "stepsFrom (simTime (self w)) fs sm"
    "simTime (self w3) = sm"
    "nw = f64_sub (clock e (reads w + length fs)) (baseTime (self w))"
    "\<not> f64_lt sm nw"
    "callsAt AtFrame (trace w3) =
        callsAt AtFrame (trace w) @ (if Frame (self w) = None then [] else fs)"
    by blast
  note g = renderGate_keeps [of e ubase "baseTime (self w)" step nw w3]
  have iff: "f64_lt (simTime (self w)) (f64_sub (clock e (reads w)) (baseTime (self w)))
      \<longleftrightarrow> fs \<noteq> []"
  proof (cases fs)
    case Nil
    with fs(3,5,6) show ?thesis by simp
  next
    case (Cons c cs)
    obtain step0 ft0 where c: "c = (step0, ft0)" by (cases c)
    from fs(2,3) show ?thesis unfolding Cons c by simp
  qed
  from fs g iff show ?thesis
    unfolding w1 by (intro exI [of _ fs]) simp
qed

theorem stepper_runs_while_behind_witness:
  "runSim example_env 2 (unix example_env) (Some 0) example_start = Some (None, example_after1)
   \<and> (\<exists>fs. reads example_after1 = reads example_start + 1 + length fs
        \<and> stepsFrom (simTime (self example_start)) fs (simTime (self example_after1))
        \<and> callsAt AtFrame (trace example_after1) = callsAt AtFrame (trace example_start) @ fs
        \<and> fs \<noteq> [])"
proof -
  have run: "runSim example_env 2 (unix example_env) (Some 0) example_start
      = Some (None, example_after1)"
    by (rule example_first_iteration)
  have fr: "Frame (self example_start) \<noteq> None"
    and lt: "f64_lt (simTime (self example_start))
      (f64_sub (clock example_env (reads example_start)) (baseTime (self example_start)))"
    unfolding example_start_def by code_simp+
  from stepper_runs_while_behind [OF run] fr lt run show ?thesis by auto
qed

text \<open>
  C1 as stated fails. The example program's first iteration reads \<open>Now() = 0.3\<close> with
  \<open>simTime = 0\<close> and \<open>hz = 0.5\<close>: less than a full step is unconsumed and
  \<open>simTime + hz \<le> Now()\<close> is false, and still the frame hook is called (twice, the
  second reading being 0.6) and \<open>simTime\<close> becomes 1.
\<close>

theorem stepper_full_step_counterexample:
  "f64_lt (f64_sub (fst (Now example_env example_start)) (simTime (self example_start)))
     (hz (self example_start))
   \<and> \<not> f64_le (f64_add (simTime (self example_start)) (hz (self example_start)))
        (fst (Now example_env example_start))
   \<and> runSim example_env 2 (unix example_env) (Some 0) example_start = Some (None, example_after1)
   \<and> callsAt AtFrame (trace example_start) = []
   \<and> callsAt AtFrame (trace example_after1) =
        [(Finite (1 / 2), Finite 0), (Finite (1 / 2), Finite (1 / 2))]
   \<and> simTime (self example_start) = Finite 0
   \<and> simTime (self example_after1) = Finite 1"
  unfolding example_start_def by code_simp

section \<open>The render gate\<close>

text \<open>
  C3, as amended. In every iteration whose render gate finds rate limiting disabled
  (\<open>rfps \<le> 0\<close> after the stepping), the render hook is called exactly once, and its
  \<open>frameTime\<close> argument is the last reading of \<open>Now()\<close>, the one that ended the stepping
  (\<open>simTime\<close> is not below it), not \<open>simTime\<close>; \<open>renderTime\<close> is set to that reading.
\<close>

theorem render_unlimited:
  assumes "runSim e n ubase stop w = Some (None, w1)"
  shows "\<exists>step sm nw w3. stepper e n ubase w = Some (step, sm, nw, w3)
    \<and> nw = f64_sub (clock e (reads w1 - 1)) (baseTime (self w))
    \<and> \<not> f64_lt (simTime (self w1)) nw
    \<and> (rfps (self w3) \<le> 0 \<longrightarrow>
         callsAt AtRender (trace w1) =
           callsAt AtRender (trace w) @ (if Render (self w) = None then [] else [(step, nw)])
         \<and> renderTime (self w1) = nw)"
proof -
  from runSim_open(2) [OF assms] obtain step sm nw w3 where
    st: "stepper e n ubase w = Some (step, sm, nw, w3)" and
    w1: "w1 = renderGate e ubase (baseTime (self w)) step nw w3"
    by blast
  from stepper_frames [OF st] obtain fs where fs:
    "reads w3 = reads w + 1 + length fs"
    "admitted e (baseTime (self w)) (reads w) fs"
    "stepsFrom (simTime (self w)) fs sm"
    "simTime (self w3) = sm"
    "nw = f64_sub (clock e (reads w + length fs)) (baseTime (self w))"
    "\<not> f64_lt sm nw"
    by blast
  note k = stepper_keeps [OF st]
  note g = renderGate_keeps [of e ubase "baseTime (self w)" step nw w3]
  note c = renderGate_calls [of e ubase "baseTime (self w)" step nw w3]
  have "nw = f64_sub (clock e (reads w1 - 1)) (baseTime (self w))"
    using fs(1,5) g unfolding w1 by simp
  moreover have "\<not> f64_lt (simTime (self w1)) nw"
    using fs(4,6) g unfolding w1 by simp
  moreover have "rfps (self w3) \<le> 0 \<longrightarrow>
         callsAt AtRender (trace w1) =
           callsAt AtRender (trace w) @ (if Render (self w) = None then [] else [(step, nw)])
         \<and> renderTime (self w1) = nw"
    using c k unfolding w1 by simp
  ultimately show ?thesis using st by blast
qed

lemma unlimited_first_iteration:
  "runSim example_env 2 (unix example_env) (Some 0) unlimited_start = Some (None, unlimited_after1)"
  unfolding unlimited_start_def by code_simp

theorem render_unlimited_witness:
  "runSim example_env 2 (unix example_env) (Some 0) unlimited_start = Some (None, unlimited_after1)
   \<and> (\<exists>step sm nw w3. stepper example_env 2 (unix example_env) unlimited_start = Some (step, sm, nw, w3)
        \<and> nw = Finite (9 / 10) \<and> rfps (self w3) \<le> 0
        \<and> callsAt AtRender (trace unlimited_after1) = [(step, nw)]
        \<and> renderTime (self unlimited_after1) = nw)"
proof -
  have run: "runSim example_env 2 (unix example_env) (Some 0) unlimited_start
      = Some (None, unlimited_after1)"
    by (rule unlimited_first_iteration)
  from render_unlimited [OF run] obtain step sm nw w3 where
    st: "stepper example_env 2 (unix example_env) unlimited_start = Some (step, sm, nw, w3)" and
    nw: "nw = f64_sub (clock example_env (reads unlimited_after1 - 1)) (baseTime (self unlimited_start))" and
    imp: "rfps (self w3) \<le> 0 \<longrightarrow>
         callsAt AtRender (trace unlimited_after1) =
           callsAt AtRender (trace unlimited_start)
             @ (if Render (self unlimited_start) = None then [] else [(step, nw)])
         \<and> renderTime (self unlimited_after1) = nw"
    by blast
  have "stepper example_env 2 (unix example_env) unlimited_start = Some (Finite (1 / 2), Finite 1, Finite (9 / 10),
    unlimited_after1\<lparr> trace := butlast (trace unlimited_after1),
      self := (self unlimited_after1)\<lparr> renderTime := Finite 0 \<rparr> \<rparr>)"
    unfolding unlimited_start_def by code_simp
  with st have w3: "rfps (self w3) \<le> 0" by (auto simp add: unlimited_after1_def)
  have nw': "nw = Finite (9 / 10)" unfolding nw unlimited_start_def by code_simp
  have c0: "callsAt AtRender (trace unlimited_start) = []"
    and r0: "Render (self unlimited_start) \<noteq> None"
    unfolding unlimited_start_def by code_simp+
  from imp w3 c0 r0 have "callsAt AtRender (trace unlimited_after1) = [(step, nw)]
      \<and> renderTime (self unlimited_after1) = nw" by simp
  with run st w3 nw' show ?thesis by blast
qed

text \<open>
  C3 as stated fails. With \<^verbatim>\<open>gt3.NewSim(2, 0, down)\<close> the first iteration steps
  \<open>simTime\<close> to 1 and calls the render hook once, with \<open>frameTime = 0.9\<close>, the last
  reading of the clock.
\<close>

theorem render_frame_time_counterexample:
  "rfps (self unlimited_start) \<le> 0
   \<and> runSim example_env 2 (unix example_env) (Some 0) unlimited_start = Some (None, unlimited_after1)
   \<and> callsAt AtRender (trace unlimited_start) = []
   \<and> callsAt AtRender (trace unlimited_after1) = [(Finite (1 / 2), Finite (9 / 10))]
   \<and> simTime (self unlimited_after1) = Finite 1"
  unfolding unlimited_start_def by code_simp

lemma renderRate_act:
  assumes "\<forall>v. a \<noteq> CallSetRenderFPS v"
  shows "rfps (self (act w a)) = rfps (self w) \<and> rhz (self (act w a)) = rhz (self w)"
  using assms
  by (cases a)
    (simp_all add: SetFPS_def close_chan_def Sched_def Sync_def submit_def)

lemma renderRate_acts:
  assumes "\<forall>v. CallSetRenderFPS v \<notin> set as"
  shows "rfps (self (foldl act w as)) = rfps (self w) \<and> rhz (self (foldl act w as)) = rhz (self w)"
  using assms
proof (induction as arbitrary: w)
  case Nil
  show ?case by simp
next
  case (Cons a as)
  then have "\<forall>v. a \<noteq> CallSetRenderFPS v" and "\<forall>v. CallSetRenderFPS v \<notin> set as" by auto
  with Cons.IH [of "act w a"] renderRate_act [of a w] show ?case by simp
qed

lemma renderRate_Do:
  assumes "keepsRenderRate e"
  shows "rfps (self (Do e st op0 step ft rt w)) = rfps (self w)
    \<and> rhz (self (Do e st op0 step ft rt w)) = rhz (self w)"
proof -
  from assms have "\<forall>v. CallSetRenderFPS v \<notin> set (behaviour e (length (trace w)) op0 step ft rt)"
    by (simp add: keepsRenderRate_def)
  from renderRate_acts [OF this] show ?thesis by (simp add: Do_def)
qed

lemma renderRate_runOp:
  assumes "keepsRenderRate e"
  shows "rfps (self (runOp e st opt step ft rt w)) = rfps (self w)
    \<and> rhz (self (runOp e st opt step ft rt w)) = rhz (self w)"
  using renderRate_Do [OF assms] by (cases opt) (simp_all add: runOp_def)

lemma renderRate_pollLoop:
  assumes "keepsRenderRate e" and "pollLoop e n c step ft rt w = Some w1"
  shows "rfps (self w1) = rfps (self w) \<and> rhz (self w1) = rhz (self w)"
  using assms(2)
proof (induction n arbitrary: w)
  case 0
  then show ?case by (simp split: option.splits)
next
  case (Suc n)
  show ?case
  proof (cases "recv c (parked w)")
    case None
    with Suc.prems show ?thesis by simp
  next
    case (Some a)
    obtain p ps where a: "a = (p, ps)" by (cases a)
    from Suc.prems Some a
    have "pollLoop e n c step ft rt
        (Do e (FromQueue (ticket p)) (sop p) step ft rt (w\<lparr> parked := ps \<rparr>)) = Some w1"
      by simp
    from Suc.IH [OF this] renderRate_Do [OF assms(1)] show ?thesis by simp
  qed
qed

lemma renderRate_frame:
  assumes "keepsRenderRate e" and "frame e n step ft rt w = Some w1"
  shows "rfps (self w1) = rfps (self w) \<and> rhz (self w1) = rhz (self w)"
proof -
  from assms(2) obtain w0 where
    poll: "pollLoop e n (sched (self w)) step ft rt w = Some w0" and
    w1: "w1 = runOp e AtFrame (Frame (self w0)) step ft rt w0"
    by (auto simp add: frame_def pollSched_def split: option.splits)
  from renderRate_pollLoop [OF assms(1) poll] renderRate_runOp [OF assms(1)]
  show ?thesis by (simp add: w1)
qed

lemma renderRate_simLoop:
  assumes "keepsRenderRate e"
    and "simLoop e n ubase base step sm nw w = Some (step1, sm1, nw1, w1)"
  shows "rfps (self w1) = rfps (self w) \<and> rhz (self w1) = rhz (self w)"
  using assms(2)
proof (induction n arbitrary: step sm nw w)
  case 0
  then show ?case by (simp split: if_splits)
next
  case (Suc n)
  show ?case
  proof (cases "f64_lt sm nw")
    case False
    with Suc.prems show ?thesis by simp
  next
    case True
    with Suc.prems obtain wa where
      fr: "frame e n step sm (realtime ubase base sm) w = Some wa"
      by (auto split: option.splits)
    define wb where "wb = wa\<lparr> self := (self wa)\<lparr> simTime := f64_add sm step \<rparr> \<rparr>"
    define stepb where "stepb = (if f64_lt (f64_add sm step) nw then hz (self wb) else step)"
    from Suc.prems True fr
    have run: "simLoop e n ubase base stepb (f64_add sm step) (fst (Now e wb)) (snd (Now e wb))
        = Some (step1, sm1, nw1, w1)"
      by (auto simp add: wb_def stepb_def Let_def split: if_splits)
    from Suc.IH [OF run] renderRate_frame [OF assms(1) fr]
    show ?thesis by (simp add: Now_eq wb_def)
  qed
qed

lemma renderRate_stepper:
  assumes "keepsRenderRate e" and "stepper e n ubase w = Some (step1, sm1, nw1, w3)"
  shows "rfps (self w3) = rfps (self w) \<and> rhz (self w3) = rhz (self w)"
proof -
  define w0 where "w0 = runOp e AtPreFrame (PreFrame (self w)) (hz (self w)) (simTime (self w))
    (realtime ubase (baseTime (self w)) (simTime (self w))) w"
  from assms(2) have run: "simLoop e n ubase (baseTime (self w)) (hz (self w)) (simTime (self w))
      (fst (Now e w0)) (snd (Now e w0)) = Some (step1, sm1, nw1, w3)"
    by (simp add: stepper_def Let_def w0_def)
  from renderRate_simLoop [OF assms(1) run] renderRate_runOp [OF assms(1)]
  show ?thesis by (simp add: Now_eq w0_def)
qed

lemma renderRate_renderGate:
  assumes "keepsRenderRate e"
  shows "rfps (self (renderGate e ubase base step nw w)) = rfps (self w)
    \<and> rhz (self (renderGate e ubase base step nw w)) = rhz (self w)"
  using renderRate_runOp [OF assms] by (simp add: renderGate_def Let_def)

lemma spaced_snoc:
  assumes "spaced d cs" and "cs \<noteq> [] \<Longrightarrow> f64_le (f64_add (snd (last cs)) d) (snd c)"
  shows "spaced d (cs @ [c])"
  using assms
proof (induction d cs rule: spaced.induct)
  case (1 d)
  show ?case by simp
next
  case (2 d c0)
  then show ?case by (cases c0; cases c) simp
next
  case (3 d step ft step1 ft1 cs)
  then show ?case by simp
qed

text \<open>The invariant of the render gate under a fixed positive render rate.\<close>

lemma gate_invariant:
  assumes keep: "keepsRenderRate e"
    and run: "runSim e n ubase stop w = Some (None, w1)"
    and rate: "0 < rfps (self w)" "rhz (self w) = d"
    and inv: "spaced d (callsAt AtRender (trace w))"
      "callsAt AtRender (trace w) \<noteq> [] \<Longrightarrow>
         renderTime (self w) = f64_add (snd (last (callsAt AtRender (trace w)))) d"
      "Render (self w) = None \<Longrightarrow> callsAt AtRender (trace w) = []"
  shows "rfps (self w1) = rfps (self w) \<and> rhz (self w1) = d
    \<and> spaced d (callsAt AtRender (trace w1))
    \<and> (callsAt AtRender (trace w1) \<noteq> [] \<longrightarrow>
         renderTime (self w1) = f64_add (snd (last (callsAt AtRender (trace w1)))) d)
    \<and> (Render (self w1) = None \<longrightarrow> callsAt AtRender (trace w1) = [])"
proof -
  from runSim_open(2) [OF run] obtain step sm nw w3 where
    st: "stepper e n ubase w = Some (step, sm, nw, w3)" and
    w1: "w1 = renderGate e ubase (baseTime (self w)) step nw w3"
    by blast
  note k = stepper_keeps [OF st]
  note g = renderGate_keeps [of e ubase "baseTime (self w)" step nw w3]
  note r3 = renderRate_stepper [OF keep st]
  note r1 = renderRate_renderGate [OF keep, of ubase "baseTime (self w)" step nw w3]
  note c = renderGate_calls [of e ubase "baseTime (self w)" step nw w3]
  from k have c3: "callsAt AtRender (trace w3) = callsAt AtRender (trace w)"
    and t3: "renderTime (self w3) = renderTime (self w)"
    and h3: "Render (self w3) = Render (self w)" by simp_all
  from g h3 have h1: "Render (self w1) = Render (self w)" by (simp add: w1)
  have rates: "rfps (self w1) = rfps (self w)" "rhz (self w1) = d"
    using r1 r3 rate by (simp_all add: w1)
  show ?thesis
  proof (cases "Render (self w) = None")
    case True
    then have "callsAt AtRender (trace w1) = []"
      using c(1) h3 c3 inv(3) by (simp add: w1)
    with rates show ?thesis by simp
  next
    case hook: False
    show ?thesis
    proof (cases "f64_ge nw (renderTime (self w))")
      case True
      have calls: "callsAt AtRender (trace w1) = callsAt AtRender (trace w) @ [(step, nw)]"
        using c(1) True hook h3 r3 rate c3 t3 by (simp add: w1)
      have rt: "renderTime (self w1) = f64_add nw d"
        using c(2) True r3 rate t3 by (simp add: w1)
      have "spaced d (callsAt AtRender (trace w) @ [(step, nw)])"
      proof (rule spaced_snoc [OF inv(1)])
        assume "callsAt AtRender (trace w) \<noteq> []"
        from inv(2) [OF this] True show
          "f64_le (f64_add (snd (last (callsAt AtRender (trace w)))) d) (snd (step, nw))"
          by (simp add: f64_ge_def)
      qed
      with rates calls rt h1 hook show ?thesis by auto
    next
      case False
      have calls: "callsAt AtRender (trace w1) = callsAt AtRender (trace w)"
        using c(1) False r3 rate c3 t3 by (simp add: w1)
      have rt: "renderTime (self w1) = renderTime (self w)"
        using c(2) False r3 rate t3 by (simp add: w1)
      from rates calls rt inv(1,2) h1 hook show ?thesis by auto
    qed
  qed
qed

lemma gate_invariant_iterations:
  assumes keep: "keepsRenderRate e"
    and run: "afterIterations e k n ubase stop w = Some w1"
    and rate: "0 < rfps (self w)" "rhz (self w) = d"
    and inv: "spaced d (callsAt AtRender (trace w))"
      "callsAt AtRender (trace w) \<noteq> [] \<Longrightarrow>
         renderTime (self w) = f64_add (snd (last (callsAt AtRender (trace w)))) d"
      "Render (self w) = None \<Longrightarrow> callsAt AtRender (trace w) = []"
  shows "spaced d (callsAt AtRender (trace w1))"
  using run rate inv
proof (induction k arbitrary: w)
  case 0
  then show ?case by simp
next
  case (Suc k)
  from Suc.prems(1) obtain w0 where
    it: "runSim e n ubase stop w = Some (None, w0)" and
    rest: "afterIterations e k n ubase stop w0 = Some w1"
    by (auto split: option.splits)
  from gate_invariant [OF keep it Suc.prems(2,3,4,5,6)]
  have g: "rfps (self w0) = rfps (self w)" "rhz (self w0) = d"
    "spaced d (callsAt AtRender (trace w0))"
    "callsAt AtRender (trace w0) \<noteq> [] \<Longrightarrow>
       renderTime (self w0) = f64_add (snd (last (callsAt AtRender (trace w0)))) d"
    "Render (self w0) = None \<Longrightarrow> callsAt AtRender (trace w0) = []"
    by simp_all
  from g(1) Suc.prems(2) have "0 < rfps (self w0)" by simp
  from Suc.IH [OF rest this g(2,3,4,5)] show ?case .
qed

text \<open>
  C4. In every iteration whose render gate finds rate limiting enabled (\<open>rfps > 0\<close>
  after the stepping), the render hook is called exactly when the last reading \<open>now\<close> of
  the clock satisfies \<open>now \<ge> renderTime\<close>, and then \<open>renderTime\<close> becomes \<open>now + rhz\<close>:
  it advances from the reading, not from the previous deadline. So, while the render
  rate stays \<open>R > 0\<close> with \<open>rhz = 1 / R\<close> (no op changes it), each render call of a run
  is made at a time at least \<open>1 / R\<close> after the one before it.
\<close>

theorem render_limited:
  "(runSim e n ubase stop w = Some (None, w1) \<longrightarrow>
      (\<exists>step sm nw w3. stepper e n ubase w = Some (step, sm, nw, w3)
        \<and> nw = f64_sub (clock e (reads w1 - 1)) (baseTime (self w))
        \<and> (0 < rfps (self w3) \<longrightarrow>
             callsAt AtRender (trace w1) =
               callsAt AtRender (trace w) @
                 (if f64_ge nw (renderTime (self w)) \<and> Render (self w) \<noteq> None
                  then [(step, nw)] else [])
             \<and> renderTime (self w1) =
                 (if f64_ge nw (renderTime (self w)) then f64_add nw (rhz (self w3))
                  else renderTime (self w)))))
   \<and> (keepsRenderRate e \<and> 0 < R \<and> rfps (self w) = R \<and> rhz (self w) = Finite (1 / of_int R)
        \<and> callsAt AtRender (trace w) = []
        \<and> afterIterations e k n ubase stop w = Some w2
      \<longrightarrow> spaced (Finite (1 / of_int R)) (callsAt AtRender (trace w2)))"
proof (intro conjI impI)
  assume run: "runSim e n ubase stop w = Some (None, w1)"
  from runSim_open(2) [OF run] obtain step sm nw w3 where
    st: "stepper e n ubase w = Some (step, sm, nw, w3)" and
    w1: "w1 = renderGate e ubase (baseTime (self w)) step nw w3"
    by blast
  from stepper_frames [OF st] obtain fs where fs:
    "reads w3 = reads w + 1 + length fs"
    "admitted e (baseTime (self w)) (reads w) fs"
    "stepsFrom (simTime (self w)) fs sm"
    "simTime (self w3) = sm"
    "nw = f64_sub (clock e (reads w + length fs)) (baseTime (self w))"
    by blast
  note k = stepper_keeps [OF st]
  note g = renderGate_keeps [of e ubase "baseTime (self w)" step nw w3]
  note c = renderGate_calls [of e ubase "baseTime (self w)" step nw w3]
  have "nw = f64_sub (clock e (reads w1 - 1)) (baseTime (self w))"
    using fs(1,5) g unfolding w1 by simp
  moreover have "0 < rfps (self w3) \<longrightarrow>
             callsAt AtRender (trace w1) =
               callsAt AtRender (trace w) @
                 (if f64_ge nw (renderTime (self w)) \<and> Render (self w) \<noteq> None
                  then [(step, nw)] else [])
             \<and> renderTime (self w1) =
                 (if f64_ge nw (renderTime (self w)) then f64_add nw (rhz (self w3))
                  else renderTime (self w))"
    using c k unfolding w1 by simp
  ultimately show "\<exists>step sm nw w3. stepper e n ubase w = Some (step, sm, nw, w3)
        \<and> nw = f64_sub (clock e (reads w1 - 1)) (baseTime (self w))
        \<and> (0 < rfps (self w3) \<longrightarrow>
             callsAt AtRender (trace w1) =
               callsAt AtRender (trace w) @
                 (if f64_ge nw (renderTime (self w)) \<and> Render (self w) \<noteq> None
                  then [(step, nw)] else [])
             \<and> renderTime (self w1) =
                 (if f64_ge nw (renderTime (self w)) then f64_add nw (rhz (self w3))
                  else renderTime (self w)))"
    using st by blast
next
  assume a: "keepsRenderRate e \<and> 0 < R \<and> rfps (self w) = R \<and> rhz (self w) = Finite (1 / of_int R)
        \<and> callsAt AtRender (trace w) = []
        \<and> afterIterations e k n ubase stop w = Some w2"
  then have "0 < rfps (self w)" by simp
  from a gate_invariant_iterations [of e k n ubase stop w w2 "Finite (1 / of_int R)", OF _ _ this]
  show "spaced (Finite (1 / of_int R)) (callsAt AtRender (trace w2))" by simp
qed

lemma example_two_iterations:
  "afterIterations example_env 2 2 (unix example_env) (Some 0) example_start = Some example_after2"
  unfolding example_start_def by code_simp

lemma example_keepsRenderRate: "keepsRenderRate example_env"
  by (simp add: keepsRenderRate_def example_env_def)

theorem render_limited_witness:
  "runSim example_env 2 (unix example_env) (Some 0) example_start = Some (None, example_after1)
   \<and> keepsRenderRate example_env \<and> (0::int) < 30 \<and> rfps (self example_start) = 30
   \<and> rhz (self example_start) = Finite (1 / of_int 30)
   \<and> callsAt AtRender (trace example_start) = []
   \<and> afterIterations example_env 2 2 (unix example_env) (Some 0) example_start = Some example_after2
   \<and> callsAt AtRender (trace example_after2) = [(Finite (1 / 2), Finite (9 / 10)), (Finite (1 / 2), Finite (3 / 2))]
   \<and> spaced (Finite (1 / of_int 30)) (callsAt AtRender (trace example_after2))
   \<and> (\<exists>step sm nw w3. stepper example_env 2 (unix example_env) example_start = Some (step, sm, nw, w3)
        \<and> nw = Finite (9 / 10) \<and> 0 < rfps (self w3) \<and> f64_ge nw (renderTime (self example_start))
        \<and> callsAt AtRender (trace example_after1) = [(step, nw)]
        \<and> renderTime (self example_after1) = f64_add nw (rhz (self w3)))"
proof -
  have run: "runSim example_env 2 (unix example_env) (Some 0) example_start
      = Some (None, example_after1)"
    by (rule example_first_iteration)
  have its: "afterIterations example_env 2 2 (unix example_env) (Some 0) example_start
      = Some example_after2"
    by (rule example_two_iterations)
  have facts: "(0::int) < 30" "rfps (self example_start) = 30"
    "rhz (self example_start) = Finite (1 / of_int 30)"
    "callsAt AtRender (trace example_start) = []"
    "callsAt AtRender (trace example_after2) = [(Finite (1 / 2), Finite (9 / 10)), (Finite (1 / 2), Finite (3 / 2))]"
    "Render (self example_start) \<noteq> None"
    "renderTime (self example_start) = Finite 0"
    unfolding example_start_def by code_simp+
  note inst = render_limited [of example_env 2 "unix example_env" "Some 0" example_start
      example_after1 30 2 example_after2]
  from inst run obtain step sm nw w3 where
    st: "stepper example_env 2 (unix example_env) example_start = Some (step, sm, nw, w3)" and
    nw: "nw = f64_sub (clock example_env (reads example_after1 - 1)) (baseTime (self example_start))" and
    imp: "0 < rfps (self w3) \<longrightarrow>
             callsAt AtRender (trace example_after1) =
               callsAt AtRender (trace example_start) @
                 (if f64_ge nw (renderTime (self example_start)) \<and> Render (self example_start) \<noteq> None
                  then [(step, nw)] else [])
             \<and> renderTime (self example_after1) =
                 (if f64_ge nw (renderTime (self example_start)) then f64_add nw (rhz (self w3))
                  else renderTime (self example_start))"
    by blast
  have "stepper example_env 2 (unix example_env) example_start = Some (Finite (1 / 2), Finite 1, Finite (9 / 10),
    example_after1\<lparr> trace := butlast (trace example_after1),
      self := (self example_after1)\<lparr> renderTime := Finite 0 \<rparr> \<rparr>)"
    unfolding example_start_def by code_simp
  with st have w3: "0 < rfps (self w3)" by (auto simp add: example_after1_def)
  have nw': "nw = Finite (9 / 10)" unfolding nw example_start_def by code_simp
  have ge: "f64_ge nw (renderTime (self example_start))"
    unfolding nw' facts(7) by (simp add: f64_ge_def)
  from imp w3 ge facts(4,6) have one: "callsAt AtRender (trace example_after1) = [(step, nw)]
      \<and> renderTime (self example_after1) = f64_add nw (rhz (self w3))" by simp
  from inst example_keepsRenderRate facts(1,2,3,4) its
  have sp: "spaced (Finite (1 / of_int 30)) (callsAt AtRender (trace example_after2))" by blast
  from run example_keepsRenderRate facts(1-5) its sp st nw' w3 ge one show ?thesis by blast
qed

section \<open>Stopping\<close>

lemma runSim_stopped: "is_closed stop w \<Longrightarrow> runSim e n ubase stop w = Some (Some ErrStopped, w)"
  by (simp add: runSim_def)

lemma runSim_error:
  assumes "runSim e n ubase stop w = Some (Some err, w1)"
  shows "err = ErrStopped \<and> w1 = w \<and> is_closed stop w"
  using assms by (auto simp add: runSim_def split: if_splits option.splits)

lemma runLoop_error:
  assumes "runLoop e k n ubase stop w = Some (r, w1)"
  shows "r = Some ErrStopped \<and> is_closed stop w1"
  using assms
proof (induction k arbitrary: w)
  case 0
  then show ?case by simp
next
  case (Suc k)
  from Suc.prems obtain r0 w0 where it: "runSim e n ubase stop w = Some (r0, w0)"
    by (auto split: option.splits)
  show ?case
  proof (cases r0)
    case None
    with Suc.prems it have "runLoop e k n ubase stop w0 = Some (r, w1)" by simp
    then show ?thesis by (rule Suc.IH)
  next
    case (Some err)
    with Suc.prems it have "r = Some err" "w1 = w0" by simp_all
    with runSim_error [of e n ubase stop w err w0] it Some show ?thesis by simp
  qed
qed

lemma runLoop_after:
  assumes "afterIterations e k n ubase stop w = Some w1" and "is_closed stop w1" and "k < j"
  shows "runLoop e j n ubase stop w = Some (Some ErrStopped, w1)"
  using assms
proof (induction k arbitrary: w j)
  case 0
  then obtain i where "j = Suc i" by (cases j) simp_all
  with 0 show ?case by (simp add: runSim_stopped)
next
  case (Suc k)
  from Suc.prems(3) obtain i where j: "j = Suc i" and i: "k < i" by (cases j) simp_all
  from Suc.prems(1) obtain w0 where
    it: "runSim e n ubase stop w = Some (None, w0)" and
    rest: "afterIterations e k n ubase stop w0 = Some w1"
    by (auto split: option.splits)
  from Suc.IH [OF rest Suc.prems(2) i] it show ?case by (simp add: j)
qed

text \<open>
  C2, as amended. When the stop signal has fired, \<^verbatim>\<open>Run\<close> returns the error
  \<^verbatim>\<open>ErrStopped\<close>, not nil: an iteration that finds the stop channel closed does nothing
  and returns \<^verbatim>\<open>ErrStopped\<close>; when the loop finds the channel closed after some number
  of iterations, \<^verbatim>\<open>Run\<close> returns \<^verbatim>\<open>ErrStopped\<close> in the state those iterations left;
  and whenever \<^verbatim>\<open>Run\<close> returns, its error is \<^verbatim>\<open>ErrStopped\<close> and the channel is closed.
\<close>

theorem Run_returns_ErrStopped:
  "(is_closed stop w \<longrightarrow> runSim e n ubase stop w = Some (Some ErrStopped, w))
   \<and> (afterIterations e k n (unix e) (stopped (self w)) (runInit e w) = Some w1
        \<and> is_closed (stopped (self w)) w1 \<and> k < j
      \<longrightarrow> Run e j n w = Some (Some ErrStopped, w1))
   \<and> (Run e k n w = Some (r, w2) \<longrightarrow> r = Some ErrStopped \<and> is_closed (stopped (self w)) w2)"
  by (auto simp add: Run_def runSim_stopped runLoop_after dest: runLoop_error)

lemma example_start_iterations:
  "afterIterations example_env 2 2 (unix example_env) (stopped (self example_world))
     (runInit example_env example_world) = Some example_after2"
  by code_simp

theorem Run_returns_ErrStopped_witness:
  "is_closed (Some 0) example_after2
   \<and> runSim example_env 2 (unix example_env) (Some 0) example_after2
       = Some (Some ErrStopped, example_after2)
   \<and> afterIterations example_env 2 2 (unix example_env) (stopped (self example_world))
       (runInit example_env example_world) = Some example_after2
   \<and> is_closed (stopped (self example_world)) example_after2 \<and> (2::nat) < 3
   \<and> Run example_env 3 2 example_world = Some (Some ErrStopped, example_after2)"
proof -
  have c: "is_closed (Some 0) example_after2" "is_closed (stopped (self example_world)) example_after2"
    by code_simp+
  have lt: "(2::nat) < 3" by simp
  note inst = Run_returns_ErrStopped [where stop = "Some 0" and w = example_after2
      and e = example_env and n = 2 and ubase = "unix example_env"]
    Run_returns_ErrStopped [where w = example_world and e = example_env and k = 2 and n = 2
      and ?w1.0 = example_after2 and j = 3]
  from inst c lt example_start_iterations show ?thesis by blast
qed

text \<open>
  C2 as stated fails. In the example program the pre-frame hook closes the stop
  channel in the second iteration; \<^verbatim>\<open>Run\<close> returns from the third with the error
  \<^verbatim>\<open>ErrStopped\<close>, which is not nil.
\<close>

theorem Run_nil_error_counterexample:
  "Run example_env 3 2 example_world = Some (Some ErrStopped, example_after2)
   \<and> is_closed (stopped (self example_world)) example_after2
   \<and> Some ErrStopped \<noteq> (None :: error option)"
  by code_simp

section \<open>Order on float64\<close>

lemma f64_le_refl: "f64_le (Finite 0) a \<Longrightarrow> f64_le a a"
  by (cases a) simp_all

lemma f64_le_trans: "f64_le a b \<Longrightarrow> f64_le b c \<Longrightarrow> f64_le a c"
  by (cases a; cases b; cases c) simp_all

lemma f64_lt_imp_le: "f64_lt a b \<Longrightarrow> f64_le a b"
  by (cases a; cases b) simp_all

lemma f64_step:
  assumes "f64_le (Finite 0) t" and "f64_lt t nw" and "f64_lt (Finite 0) h"
  shows "f64_lt t (f64_add t h) \<and> f64_le (Finite 0) (f64_add t h)"
  using assms by (cases t; cases nw; cases h) simp_all

end
